theory Spec2Isabelle
  imports Main "HOL-Library.Word"
begin

section \<open>JavaScript strings and the platform's text decoder\<close>

text \<open>
  The test client \<^verbatim>\<open>McpClient\<close> of \<^verbatim>\<open>packages/mcp/src/server.test.ts\<close> reads the
  server's standard output as chunks of bytes (\<^verbatim>\<open>Uint8Array\<close>) and turns every chunk
  into a JavaScript string with \<^verbatim>\<open>decoder.decode(chunk)\<close>. A JavaScript string is a
  sequence of 16-bit code units.
\<close>

type_synonym byte = "8 word"
type_synonym code_unit = "16 word"
type_synonym jsstring = "code_unit list"

text \<open>An ASCII literal as a JavaScript string.\<close>

definition js :: "string \<Rightarrow> jsstring" where
  "js s = map (\<lambda>c. of_nat (of_char c)) s"

subsection \<open>\<^verbatim>\<open>TextDecoder.decode\<close>\<close>

text \<open>
  \<^verbatim>\<open>new TextDecoder()\<close> is a UTF-8 decoder in replacement mode. The client calls
  \<^verbatim>\<open>decode(chunk)\<close> without \<^verbatim>\<open>{ stream: true }\<close>, so every call starts from a fresh
  decoder state and flushes at the end of its chunk.

  \<open>utf8_decode cp seen needed lo hi bs\<close> is the UTF-8 decoder of the Encoding Standard
  run over the bytes \<open>bs\<close>: \<open>cp\<close> is the code point collected so far, \<open>needed\<close> and
  \<open>seen\<close> count the continuation bytes expected and read, and \<open>lo\<close>, \<open>hi\<close> bound the
  next continuation byte. Every error yields U+FFFD; a byte that is not the expected
  continuation is read again as the start of a new sequence.
\<close>

function utf8_decode :: "nat \<Rightarrow> nat \<Rightarrow> nat \<Rightarrow> nat \<Rightarrow> nat \<Rightarrow> byte list \<Rightarrow> nat list" where
  "utf8_decode cp seen needed lo hi [] = (if needed \<noteq> 0 then [0xFFFD] else [])"
| "utf8_decode cp seen needed lo hi (b # bs) =
     (let v = unat b in
      if needed = 0 then
        (if v \<le> 0x7F then v # utf8_decode 0 0 0 0x80 0xBF bs
         else if 0xC2 \<le> v \<and> v \<le> 0xDF then utf8_decode (v mod 0x20) 0 1 0x80 0xBF bs
         else if 0xE0 \<le> v \<and> v \<le> 0xEF then
           utf8_decode (v mod 0x10) 0 2
             (if v = 0xE0 then 0xA0 else 0x80) (if v = 0xED then 0x9F else 0xBF) bs
         else if 0xF0 \<le> v \<and> v \<le> 0xF4 then
           utf8_decode (v mod 8) 0 3
             (if v = 0xF0 then 0x90 else 0x80) (if v = 0xF4 then 0x8F else 0xBF) bs
         else 0xFFFD # utf8_decode 0 0 0 0x80 0xBF bs)
      else if v < lo \<or> hi < v then 0xFFFD # utf8_decode 0 0 0 0x80 0xBF (b # bs)
      else
        (let cp' = cp * 0x40 + v mod 0x40 in
         if Suc seen \<noteq> needed then utf8_decode cp' (Suc seen) needed 0x80 0xBF bs
         else cp' # utf8_decode 0 0 0 0x80 0xBF bs))"
  by pat_completeness auto
termination
  by (relation "measures [\<lambda>(cp, seen, needed, lo, hi, bs). length bs,
                          \<lambda>(cp, seen, needed, lo, hi, bs). needed]") auto

text \<open>
  The decoder's output loses a leading byte order mark U+FEFF (\<^verbatim>\<open>ignoreBOM\<close> is
  false by default), and the code points become UTF-16 code units.
\<close>

fun strip_bom :: "nat list \<Rightarrow> nat list" where
  "strip_bom (c # cs) = (if c = 0xFEFF then cs else c # cs)"
| "strip_bom [] = []"

definition utf16_units :: "nat \<Rightarrow> jsstring" where
  "utf16_units c =
     (if c < 0x10000 then [of_nat c]
      else [of_nat (0xD800 + (c - 0x10000) div 0x400),
            of_nat (0xDC00 + (c - 0x10000) mod 0x400)])"

definition TextDecoder_decode :: "byte list \<Rightarrow> jsstring" where
  "TextDecoder_decode chunk =
     concat (map utf16_units (strip_bom (utf8_decode 0 0 0 0x80 0xBF chunk)))"

subsection \<open>\<^verbatim>\<open>String.prototype.split\<close> and \<^verbatim>\<open>String.prototype.trim\<close>\<close>

text \<open>
  \<^verbatim>\<open>s.split("\n")\<close>: the pieces of \<open>s\<close> between line feeds. The result is never
  empty: the empty string splits into one empty piece.
\<close>

definition LF :: code_unit where
  "LF = 0x0A"

fun split_LF :: "jsstring \<Rightarrow> jsstring list" where
  "split_LF [] = [[]]"
| "split_LF (c # cs) =
     (if c = LF then [] # split_LF cs
      else (case split_LF cs of
              [] \<Rightarrow> [[c]]
            | l # ls \<Rightarrow> (c # l) # ls))"

text \<open>
  \<^verbatim>\<open>trim\<close> removes white space and line terminators from both ends.
\<close>

definition js_whitespace :: "code_unit \<Rightarrow> bool" where
  "js_whitespace c \<longleftrightarrow>
     c \<in> {0x09, 0x0A, 0x0B, 0x0C, 0x0D, 0x20, 0xA0, 0x1680, 0x2028, 0x2029, 0x202F, 0x205F,
          0x3000, 0xFEFF}
     \<or> (0x2000 \<le> c \<and> c \<le> 0x200A)"

definition trim :: "jsstring \<Rightarrow> jsstring" where
  "trim s = rev (dropWhile js_whitespace (rev (dropWhile js_whitespace s)))"

section \<open>The test client \<^verbatim>\<open>McpClient\<close>\<close>

subsection \<open>Parsed JSON\<close>

text \<open>
  What \<^verbatim>\<open>JSON.parse\<close> returns. \<^verbatim>\<open>JSON.parse\<close> itself belongs to the platform: the client's
  functions below take it as the parameter \<open>parse\<close>, with \<open>None\<close> for the
  \<^verbatim>\<open>SyntaxError\<close> it throws on text that is not JSON. Request identifiers are the
  integers the tests send, so numbers are integers here.
\<close>

datatype json =
    JNull
  | JBool bool
  | JNum int
  | JStr jsstring
  | JArr "json list"
  | JObj "(jsstring \<times> json) list"

datatype js_error = SyntaxError | TypeError

subsection \<open>State\<close>

text \<open>
  \<^verbatim>\<open>sendRequest\<close> takes \<^verbatim>\<open>{ jsonrpc, id, method, params? }\<close>; the fields \<open>id'\<close> and
  \<open>method'\<close> are the source's \<^verbatim>\<open>id\<close> and \<^verbatim>\<open>method\<close>.
\<close>

record request =
  jsonrpc :: jsstring
  id' :: int
  method' :: jsstring
  params :: "json option"

text \<open>
  Every call of \<^verbatim>\<open>sendRequest\<close> creates one promise and one timer; both are named by
  the number of the call. The entry \<^verbatim>\<open>{ resolve, reject }\<close> stored in
  \<^verbatim>\<open>pendingRequests\<close> closes over that promise and that timer, so the table maps a
  request id to the promise its entry settles.
\<close>

type_synonym promise = nat

text \<open>The effects of the client, in program order.\<close>

datatype action =
    SetTimeout promise
  | MapSet int promise
  | StdinWrite request
  | MapDelete int
  | ClearTimeout promise
  | Resolve promise json
  | Reject promise jsstring

record client =
  buffer :: jsstring
  pendingRequests :: "int \<rightharpoonup> promise"
  timers :: "promise \<rightharpoonup> request"
  promises :: nat
  trace :: "action list"

definition new_client :: client where
  "new_client =
     \<lparr>buffer = [], pendingRequests = Map.empty, timers = Map.empty, promises = 0, trace = []\<rparr>"

subsection \<open>\<^verbatim>\<open>processBuffer\<close>\<close>

text \<open>
  \<^verbatim>\<open>parsed.jsonrpc === "2.0" && "id" in parsed\<close>. Reading a property of \<^verbatim>\<open>null\<close>
  throws a \<^verbatim>\<open>TypeError\<close>; a boolean, a number, a string and an array have no property
  \<^verbatim>\<open>jsonrpc\<close>, so the test is false for them.
\<close>

fun check_envelope :: "json \<Rightarrow> js_error + bool" where
  "check_envelope JNull = Inl TypeError"
| "check_envelope (JObj props) =
     Inr (map_of props (js ''jsonrpc'') = Some (JStr (js ''2.0''))
          \<and> map_of props (js ''id'') \<noteq> None)"
| "check_envelope (JBool b) = Inr False"
| "check_envelope (JNum n) = Inr False"
| "check_envelope (JStr s) = Inr False"
| "check_envelope (JArr vs) = Inr False"

text \<open>\<^verbatim>\<open>parsed.id\<close>, for a \<open>parsed\<close> that passed the test above.\<close>

fun parsed_id :: "json \<Rightarrow> json option" where
  "parsed_id (JObj props) = map_of props (js ''id'')"
| "parsed_id v = None"

text \<open>
  The stored \<^verbatim>\<open>resolve\<close> of promise \<open>p\<close>:
  \<^verbatim>\<open>(value) => { clearTimeout(timeout); resolve(value); }\<close>.
\<close>

definition entry_resolve :: "promise \<Rightarrow> json \<Rightarrow> client \<Rightarrow> client" where
  "entry_resolve p v st =
     st\<lparr>timers := (timers st)(p := None), trace := trace st @ [ClearTimeout p, Resolve p v]\<rparr>"

text \<open>\<^verbatim>\<open>this.pendingRequests.delete(key)\<close>.\<close>

definition map_delete :: "int \<Rightarrow> client \<Rightarrow> client" where
  "map_delete i st =
     st\<lparr>pendingRequests := (pendingRequests st)(i := None), trace := trace st @ [MapDelete i]\<rparr>"

text \<open>
  The statements of the \<^verbatim>\<open>try\<close> block after \<^verbatim>\<open>JSON.parse\<close>. A key that is not a
  number is not a key of the table, and \<^verbatim>\<open>get\<close> returns \<^verbatim>\<open>undefined\<close> for it. Whatever
  throws here throws before the client is changed.
\<close>

definition handle_parsed :: "client \<Rightarrow> json \<Rightarrow> js_error + client" where
  "handle_parsed st parsed =
     (case check_envelope parsed of
        Inl e \<Rightarrow> Inl e
      | Inr False \<Rightarrow> Inr st
      | Inr True \<Rightarrow>
          (case parsed_id parsed of
             Some (JNum i) \<Rightarrow>
               (case pendingRequests st i of
                  None \<Rightarrow> Inr st
                | Some p \<Rightarrow> Inr (entry_resolve p parsed (map_delete i st)))
           | _ \<Rightarrow> Inr st))"

definition try_line :: "(jsstring \<Rightarrow> json option) \<Rightarrow> client \<Rightarrow> jsstring \<Rightarrow> js_error + client" where
  "try_line parse st line =
     (case parse line of
        None \<Rightarrow> Inl SyntaxError
      | Some parsed \<Rightarrow> handle_parsed st parsed)"

text \<open>
  The body of the loop over the lines: \<^verbatim>\<open>if (!line.trim()) continue;\<close> and then
  \<^verbatim>\<open>try { ... } catch { }\<close>, whose empty handler drops whatever was thrown.
\<close>

definition handle_line :: "(jsstring \<Rightarrow> json option) \<Rightarrow> client \<Rightarrow> jsstring \<Rightarrow> client" where
  "handle_line parse st line =
     (if trim line = [] then st
      else (case try_line parse st line of
              Inl e \<Rightarrow> st
            | Inr st' \<Rightarrow> st'))"

text \<open>
  \<^verbatim>\<open>const lines = this.buffer.split("\n"); this.buffer = lines.pop() || "";\<close>: the
  complete lines and the rest that stays in the buffer. \<^verbatim>\<open>pop\<close> on an empty array
  would give \<^verbatim>\<open>undefined\<close>, which \<^verbatim>\<open>|| ""\<close> turns into the empty string.
\<close>

definition take_lines :: "jsstring \<Rightarrow> jsstring list \<times> jsstring" where
  "take_lines buf =
     (case rev (split_LF buf) of
        [] \<Rightarrow> ([], [])
      | l # ls \<Rightarrow> (rev ls, l))"

definition processBuffer :: "(jsstring \<Rightarrow> json option) \<Rightarrow> client \<Rightarrow> client" where
  "processBuffer parse st =
     (case take_lines (buffer st) of
        (lines, rest) \<Rightarrow> fold (\<lambda>line s. handle_line parse s line) lines (st\<lparr>buffer := rest\<rparr>))"

subsection \<open>\<^verbatim>\<open>readOutput\<close>\<close>

text \<open>
  The body of \<^verbatim>\<open>for await (const chunk of this.proc.stdout)\<close>:
  \<^verbatim>\<open>this.buffer += decoder.decode(chunk); this.processBuffer();\<close>
\<close>

definition on_chunk :: "(jsstring \<Rightarrow> json option) \<Rightarrow> client \<Rightarrow> byte list \<Rightarrow> client" where
  "on_chunk parse st chunk =
     processBuffer parse (st\<lparr>buffer := buffer st @ TextDecoder_decode chunk\<rparr>)"

definition readOutput :: "(jsstring \<Rightarrow> json option) \<Rightarrow> client \<Rightarrow> byte list list \<Rightarrow> client" where
  "readOutput parse st chunks = fold (\<lambda>chunk s. on_chunk parse s chunk) chunks st"

text \<open>
  The lines the loop of \<^verbatim>\<open>processBuffer\<close> goes through while \<^verbatim>\<open>readOutput\<close> reads the
  chunks, starting from the buffer \<open>buf\<close>, and the buffer left at the end.
\<close>

fun decoded_lines :: "jsstring \<Rightarrow> byte list list \<Rightarrow> jsstring list" where
  "decoded_lines buf [] = []"
| "decoded_lines buf (chunk # chunks) =
     (case take_lines (buf @ TextDecoder_decode chunk) of
        (lines, rest) \<Rightarrow> lines @ decoded_lines rest chunks)"

fun final_buffer :: "jsstring \<Rightarrow> byte list list \<Rightarrow> jsstring" where
  "final_buffer buf [] = buf"
| "final_buffer buf (chunk # chunks) =
     final_buffer (snd (take_lines (buf @ TextDecoder_decode chunk))) chunks"

subsection \<open>\<^verbatim>\<open>sendRequest\<close> and its timer\<close>

text \<open>
  The promise's executor runs at once: it starts the timer, stores the entry under
  \<^verbatim>\<open>request.id\<close> (replacing an entry already there) and writes the request to the
  server's standard input. The line written is \<^verbatim>\<open>JSON.stringify(request)\<close> and a line
  feed; the trace keeps the request itself.
\<close>

definition sendRequest :: "client \<Rightarrow> request \<Rightarrow> client" where
  "sendRequest st r =
     (let p = promises st in
      st\<lparr>pendingRequests := (pendingRequests st)(id' r \<mapsto> p),
         timers := (timers st)(p \<mapsto> r),
         promises := Suc p,
         trace := trace st @ [SetTimeout p, MapSet (id' r) p, StdinWrite r]\<rparr>)"

text \<open>
  The timer's callback, run when the 5000 ms of promise \<open>p\<close>'s timer have passed:
  \<^verbatim>\<open>this.pendingRequests.delete(request.id); reject(new Error(...));\<close>
  A timer that was cleared, or has fired, never runs.
\<close>

definition timeout_message :: "request \<Rightarrow> jsstring" where
  "timeout_message r = js ''Request timeout for '' @ method' r"

definition timer_fires :: "client \<Rightarrow> promise \<Rightarrow> client" where
  "timer_fires st p =
     (case timers st p of
        None \<Rightarrow> st
      | Some r \<Rightarrow>
          (let st' = map_delete (id' r) (st\<lparr>timers := (timers st)(p := None)\<rparr>)
           in st'\<lparr>trace := trace st' @ [Reject p (timeout_message r)]\<rparr>))"

subsection \<open>Runs of the client\<close>

text \<open>
  JavaScript runs each callback to completion, so a run of the client is a sequence of
  events: a chunk arrives on the server's standard output, the test calls
  \<^verbatim>\<open>sendRequest\<close>, or a timer fires.
\<close>

datatype event = Stdout "byte list" | SendRequest request | TimerFires promise

fun step :: "(jsstring \<Rightarrow> json option) \<Rightarrow> client \<Rightarrow> event \<Rightarrow> client" where
  "step parse st (Stdout chunk) = on_chunk parse st chunk"
| "step parse st (SendRequest r) = sendRequest st r"
| "step parse st (TimerFires p) = timer_fires st p"

definition run :: "(jsstring \<Rightarrow> json option) \<Rightarrow> client \<Rightarrow> event list \<Rightarrow> client" where
  "run parse st es = fold (\<lambda>e s. step parse s e) es st"

text \<open>The promises settled by a trace, in order, and the requests a run sends.\<close>

fun settles :: "action list \<Rightarrow> promise list" where
  "settles [] = []"
| "settles (Resolve p v # as) = p # settles as"
| "settles (Reject p m # as) = p # settles as"
| "settles (a # as) = settles as"

fun sent :: "event list \<Rightarrow> request list" where
  "sent [] = []"
| "sent (SendRequest r # es) = r # sent es"
| "sent (e # es) = sent es"

subsection \<open>Malformed lines and the invariant of the table\<close>

text \<open>
  A line is malformed for the client when it is not JSON, or is JSON without the
  protocol fields the loop asks for (\<^verbatim>\<open>jsonrpc\<close> equal to \<^verbatim>\<open>"2.0"\<close> and an \<^verbatim>\<open>id\<close>).
\<close>

definition malformed :: "(jsstring \<Rightarrow> json option) \<Rightarrow> jsstring \<Rightarrow> bool" where
  "malformed parse line =
     (case parse line of
        None \<Rightarrow> True
      | Some parsed \<Rightarrow> check_envelope parsed \<noteq> Inr True)"

text \<open>
  What every run of the client keeps true: an entry of the table belongs to a promise
  whose timer is still running and was started for that request id; a promise whose
  timer is running has not been settled; only promises that were created are settled,
  and none twice.
\<close>

definition client_inv :: "client \<Rightarrow> bool" where
  "client_inv st \<longleftrightarrow>
     (\<forall>i p. pendingRequests st i = Some p \<longrightarrow> (\<exists>r. timers st p = Some r \<and> id' r = i))
   \<and> (\<forall>p r. timers st p = Some r \<longrightarrow> p \<notin> set (settles (trace st)) \<and> p < promises st)
   \<and> (\<forall>p \<in> set (settles (trace st)). p < promises st)
   \<and> distinct (settles (trace st))"

subsection \<open>A sample exchange\<close>

text \<open>
  One request of the tests and the line that answers it, to run the client on. The
  sample parser knows this line and \<^verbatim>\<open>null\<close>, and rejects every other text.
\<close>

definition ascii_bytes :: "string \<Rightarrow> byte list" where
  "ascii_bytes s = map (\<lambda>c. of_nat (of_char c)) s"

definition sample_request :: request where
  "sample_request = \<lparr>jsonrpc = js ''2.0'', id' = 1, method' = js ''tools/list'', params = None\<rparr>"

definition sample_response :: string where
  \<open>sample_response = ''{"jsonrpc":"2.0","id":1,"result":{}}''\<close>

definition sample_parsed :: json where
  "sample_parsed =
     JObj [(js ''jsonrpc'', JStr (js ''2.0'')), (js ''id'', JNum 1), (js ''result'', JObj [])]"

definition sample_parse :: "jsstring \<Rightarrow> json option" where
  "sample_parse line =
     (if line = js sample_response then Some sample_parsed
      else if line = js ''null'' then Some JNull
      else None)"

definition sample_events :: "event list" where
  "sample_events =
     [SendRequest sample_request,
      Stdout (ascii_bytes sample_response @ [0x0A]),
      TimerFires 0]"

text \<open>
  The same request sent twice before any answer, the one answering line, and the first
  request's timer running out.
\<close>

definition reuse_events :: "event list" where
  "reuse_events =
     [SendRequest sample_request,
      SendRequest sample_request,
      Stdout (ascii_bytes sample_response @ [0x0A]),
      TimerFires 0]"

text \<open>A response whose id is the string \<^verbatim>\<open>"1"\<close>, not the number.\<close>

definition stray_response :: json where
  "stray_response = JObj [(js ''jsonrpc'', JStr (js ''2.0'')), (js ''id'', JStr (js ''1''))]"

section \<open>The renderer of the command line tool\<close>

text \<open>
  \<^verbatim>\<open>packages/cli/src/cli.test.ts\<close> imports \<^verbatim>\<open>renderDocs\<close> from \<^verbatim>\<open>./cli\<close> and the documents
  \<^verbatim>\<open>DOCS\<close> from \<^verbatim>\<open>./docs-manifest\<close>. Neither is among the sources at hand: the
  \<^verbatim>\<open>cli.ts\<close> there is an earlier installer without a renderer. The definitions of this
  section follow the specification's sections 3, 4.1 and 4.3 instead; the manifest is
  the parameter \<open>store\<close>.
\<close>

text \<open>
  Modelled from the spec: the Document of section 3, whose declaration is missing:
  "slug", "title", "description (optional one-line summary)", "order (integer
  controlling default listing sequence)" and "body (raw text content)".
\<close>

record document =
  slug :: string
  title :: string
  description :: "string option"
  order :: int
  body :: string

text \<open>
  Modelled from the spec: the failure of a lookup, whose declaration is missing:
  "fails with UnknownSlug(slug)", which section 8 calls "NotFound naming" the slug.
\<close>

datatype doc_error = UnknownSlug string

text \<open>
  Modelled from the spec: the Document Store's \<^verbatim>\<open>get(slug)\<close>, "Document or fails with
  NotFound", whose source is missing. The error names the slug asked for.
\<close>

definition get :: "document list \<Rightarrow> string \<Rightarrow> doc_error + document" where
  "get store s =
     (case find (\<lambda>d. slug d = s) store of
        None \<Rightarrow> Inl (UnknownSlug s)
      | Some d \<Rightarrow> Inr d)"

definition newline :: char where
  "newline = CHR 0x0A"

text \<open>
  Modelled from the spec: the text of one document in the output of \<^verbatim>\<open>renderDocs\<close>,
  whose source is missing: "each requested document's body, each preceded by a header
  naming its title and slug (format: a heading line followed by \<^verbatim>\<open>(slug)\<close>)".
\<close>

definition render_doc :: "document \<Rightarrow> string" where
  "render_doc d = ''## '' @ title d @ '' ('' @ slug d @ '')'' @ [newline, newline] @ body d"

text \<open>
  Modelled from the spec: the "horizontal-rule marker between consecutive documents"
  of \<^verbatim>\<open>renderDocs\<close>, whose source is missing. The test looks for \<^verbatim>\<open>---\<close> in the output.
\<close>

definition separator :: string where
  "separator = [newline, newline] @ ''---'' @ [newline, newline]"

fun join :: "string \<Rightarrow> string list \<Rightarrow> string" where
  "join sep [] = []"
| "join sep [x] = x"
| "join sep (x # y # ys) = x @ sep @ join sep (y # ys)"

text \<open>
  Modelled from the spec: the loop of \<^verbatim>\<open>renderDocs\<close> over the requested slugs, whose
  source is missing. It looks the slugs up in the order given and "fails atomically (no
  partial output) the first time a slug is not found in the Document Store, naming the
  offending slug": the error replaces whatever was rendered before it.
\<close>

fun render_each :: "document list \<Rightarrow> string list \<Rightarrow> doc_error + string list" where
  "render_each store [] = Inr []"
| "render_each store (s # ss) =
     (case get store s of
        Inl e \<Rightarrow> Inl e
      | Inr d \<Rightarrow>
          (case render_each store ss of
             Inl e \<Rightarrow> Inl e
           | Inr rendered \<Rightarrow> Inr (render_doc d # rendered)))"

text \<open>
  Modelled from the spec: \<^verbatim>\<open>renderDocs(slugs)\<close>, "string or fails with
  UnknownSlug(slug)", whose source is missing.
\<close>

definition renderDocs :: "document list \<Rightarrow> string list \<Rightarrow> doc_error + string" where
  "renderDocs store slugs =
     (case render_each store slugs of
        Inl e \<Rightarrow> Inl e
      | Inr rendered \<Rightarrow> Inr (join separator rendered))"

text \<open>A slug the Document Store does not hold.\<close>

definition unknown :: "document list \<Rightarrow> string \<Rightarrow> bool" where
  "unknown store s \<longleftrightarrow> find (\<lambda>d. slug d = s) store = None"

text \<open>Two documents to run the renderer on.\<close>

definition sample_store :: "document list" where
  "sample_store =
     [\<lparr>slug = ''overview'', title = ''Overview'', description = None, order = 0,
       body = ''Start here.''\<rparr>,
      \<lparr>slug = ''error-handling'', title = ''Error Handling'',
       description = Some ''Typed errors'', order = 1, body = ''Use tagged errors.''\<rparr>]"


section \<open>Properties of the test client\<close>

subsection \<open>Splitting the buffer into lines\<close>

lemma split_LF_nonempty: "split_LF s \<noteq> []"
  by (induction s) (auto split: list.splits)

lemma split_LF_append_LF: "split_LF (a @ LF # b) = split_LF a @ split_LF b"
  by (induction a) (auto split: list.splits simp: split_LF_nonempty)

lemma split_LF_no_LF: "LF \<notin> set l \<Longrightarrow> split_LF l = [l]"
  by (induction l) (auto split: list.splits)

lemma last_split_LF_no_LF: "LF \<notin> set (last (split_LF s))"
  by (induction s) (auto split: list.splits simp: split_LF_nonempty)

lemma split_LF_append:
  "split_LF (a @ b) = butlast (split_LF a) @ split_LF (last (split_LF a) @ b)"
proof (induction a)
  case Nil
  show ?case by simp
next
  case (Cons c a)
  show ?case
  proof (cases "c = LF")
    case True
    then show ?thesis using Cons by (simp add: split_LF_nonempty)
  next
    case False
    obtain l ls where a: "split_LF a = l # ls"
      using split_LF_nonempty [of a] by (cases "split_LF a") auto
    obtain m ms where ab: "split_LF (a @ b) = m # ms"
      using split_LF_nonempty [of "a @ b"] by (cases "split_LF (a @ b)") auto
    show ?thesis
    proof (cases ls)
      case Nil
      with a ab Cons False show ?thesis by simp
    next
      case (Cons k ks)
      with a ab Cons.IH False show ?thesis by simp
    qed
  qed
qed

lemma take_lines_eq: "take_lines buf = (butlast (split_LF buf), last (split_LF buf))"
proof -
  obtain ls l where "split_LF buf = ls @ [l]"
    using split_LF_nonempty [of buf] by (metis rev_exhaust)
  then show ?thesis by (simp add: take_lines_def)
qed

lemma take_lines_no_LF: "LF \<notin> set buf \<Longrightarrow> take_lines buf = ([], buf)"
  by (simp add: take_lines_eq split_LF_no_LF)

lemma take_lines_append:
  "take_lines (a @ b) =
     (fst (take_lines a) @ fst (take_lines (snd (take_lines a) @ b)),
      snd (take_lines (snd (take_lines a) @ b)))"
proof -
  have "split_LF (last (split_LF a) @ b) \<noteq> []"
    by (rule split_LF_nonempty)
  then show ?thesis
    by (simp add: take_lines_eq split_LF_append [of a b] butlast_append)
qed

subsection \<open>The lines \<^verbatim>\<open>readOutput\<close> hands to the loop\<close>

lemma handle_line_buffer:
  "handle_line parse (st\<lparr>buffer := b\<rparr>) line = (handle_line parse st line)\<lparr>buffer := b\<rparr>"
  by (auto simp: handle_line_def try_line_def handle_parsed_def entry_resolve_def map_delete_def
           split: option.splits sum.splits bool.splits json.splits)

lemma fold_handle_line_buffer:
  "fold (\<lambda>line s. handle_line parse s line) ls (st\<lparr>buffer := b\<rparr>)
     = (fold (\<lambda>line s. handle_line parse s line) ls st)\<lparr>buffer := b\<rparr>"
  by (induction ls arbitrary: st) (simp_all add: handle_line_buffer)

lemma readOutput_lines:
  "readOutput parse st chunks =
     (fold (\<lambda>line s. handle_line parse s line) (decoded_lines (buffer st) chunks) st)
       \<lparr>buffer := final_buffer (buffer st) chunks\<rparr>"
proof (induction chunks arbitrary: st)
  case Nil
  show ?case by (simp add: readOutput_def)
next
  case (Cons chunk chunks)
  obtain ls rest where t: "take_lines (buffer st @ TextDecoder_decode chunk) = (ls, rest)"
    by (cases "take_lines (buffer st @ TextDecoder_decode chunk)")
  let ?f = "\<lambda>line s. handle_line parse s line"
  have "on_chunk parse st chunk = (fold ?f ls st)\<lparr>buffer := rest\<rparr>"
    by (simp add: on_chunk_def processBuffer_def t fold_handle_line_buffer)
  moreover have "readOutput parse st (chunk # chunks)
      = readOutput parse (on_chunk parse st chunk) chunks"
    by (simp add: readOutput_def)
  ultimately show ?case
    by (simp add: Cons.IH t fold_handle_line_buffer)
qed

text \<open>
  Seen as text, the decoded chunks may be cut anywhere: the lines are those of the
  concatenated text, and the unfinished last line stays in the buffer.
\<close>

lemma decoded_lines_text:
  assumes "LF \<notin> set buf"
  shows "decoded_lines buf chunks
           = fst (take_lines (buf @ concat (map TextDecoder_decode chunks)))
       \<and> final_buffer buf chunks
           = snd (take_lines (buf @ concat (map TextDecoder_decode chunks)))"
  using assms
proof (induction chunks arbitrary: buf)
  case Nil
  then show ?case by (simp add: take_lines_no_LF)
next
  case (Cons chunk chunks)
  let ?d = "TextDecoder_decode chunk"
  let ?T = "concat (map TextDecoder_decode chunks)"
  have rest: "LF \<notin> set (snd (take_lines (buf @ ?d)))"
    by (simp add: take_lines_eq last_split_LF_no_LF)
  have "take_lines ((buf @ ?d) @ ?T) =
     (fst (take_lines (buf @ ?d)) @ fst (take_lines (snd (take_lines (buf @ ?d)) @ ?T)),
      snd (take_lines (snd (take_lines (buf @ ?d)) @ ?T)))"
    by (rule take_lines_append)
  with Cons.IH [OF rest] show ?case
    by (simp add: case_prod_unfold)
qed

text \<open>
  Bytes below 0x80 decode one by one, so a stream of ASCII bytes may be cut into
  chunks anywhere as well.
\<close>

lemma utf8_decode_ascii:
  "list_all (\<lambda>b. unat b < 0x80) bs \<Longrightarrow> utf8_decode 0 0 0 0x80 0xBF bs = map unat bs"
  by (induction bs) auto

lemma strip_bom_ascii: "list_all (\<lambda>c. c < 0x80) cs \<Longrightarrow> strip_bom cs = cs"
  by (cases cs) auto

lemma TextDecoder_decode_ascii:
  assumes "list_all (\<lambda>b. unat b < 0x80) bs"
  shows "TextDecoder_decode bs = map (\<lambda>b. of_nat (unat b)) bs"
proof -
  have "list_all (\<lambda>c. c < 0x80) (map unat bs)"
    using assms by (simp add: list_all_iff)
  then have "strip_bom (map unat bs) = map unat bs"
    by (rule strip_bom_ascii)
  moreover have "concat (map utf16_units (map unat bs)) = map (\<lambda>b. of_nat (unat b)) bs"
    using assms by (induction bs) (auto simp: utf16_units_def)
  ultimately show ?thesis
    using assms by (simp add: TextDecoder_decode_def utf8_decode_ascii)
qed

lemma decoded_lines_ascii:
  assumes "list_all (list_all (\<lambda>b. unat b < 0x80)) chunks"
  shows "decoded_lines [] chunks
           = fst (take_lines (map (\<lambda>b. of_nat (unat b)) (concat chunks)))"
proof -
  have "concat (map TextDecoder_decode chunks) = map (\<lambda>b. of_nat (unat b)) (concat chunks)"
    using assms by (induction chunks) (auto simp: TextDecoder_decode_ascii)
  then show ?thesis
    using decoded_lines_text [of "[]" chunks] by simp
qed


subsection \<open>Malformed lines\<close>

lemma handle_line_malformed: "malformed parse line \<Longrightarrow> handle_line parse st line = st"
  by (auto simp: malformed_def handle_line_def try_line_def handle_parsed_def
           split: option.splits sum.splits bool.splits)

text \<open>
  Claim C7. A line that is not JSON, or is JSON without the protocol fields, is skipped:
  the loop body leaves the client as it was, whatever \<^verbatim>\<open>JSON.parse\<close> or the property
  read threw being caught there, and the lines after it are handled as if the malformed
  line had not been on the stream, at the front of the buffer or after earlier lines.
\<close>

theorem malformed_line_is_skipped:
  assumes "malformed parse line" and "LF \<notin> set line"
  shows "handle_line parse st line = st
       \<and> processBuffer parse (st\<lparr>buffer := line @ LF # rest\<rparr>)
         = processBuffer parse (st\<lparr>buffer := rest\<rparr>)
       \<and> processBuffer parse (st\<lparr>buffer := before @ LF # line @ LF # rest\<rparr>)
         = processBuffer parse (st\<lparr>buffer := before @ LF # rest\<rparr>)"
proof -
  have l: "split_LF line = [line]"
    using assms(2) by (rule split_LF_no_LF)
  obtain rs r where r: "split_LF rest = rs @ [r]"
    using split_LF_nonempty [of rest] by (metis rev_exhaust)
  have 1: "take_lines (line @ LF # rest) = (line # rs, r)"
    by (simp add: take_lines_eq split_LF_append_LF l r butlast_append)
  have 2: "take_lines rest = (rs, r)"
    by (simp add: take_lines_eq r)
  have 3: "take_lines (before @ LF # line @ LF # rest) = (split_LF before @ line # rs, r)"
    by (simp add: take_lines_eq split_LF_append_LF l r butlast_append)
  have 4: "take_lines (before @ LF # rest) = (split_LF before @ rs, r)"
    by (simp add: take_lines_eq split_LF_append_LF r butlast_append)
  show ?thesis
    using assms(1) by (simp add: processBuffer_def 1 2 3 4 handle_line_malformed)
qed

lemma sample_response_line:
  "handle_line sample_parse (sendRequest new_client sample_request) (js sample_response)
     = (sendRequest new_client sample_request)
         \<lparr>pendingRequests := Map.empty, timers := Map.empty,
          trace := [SetTimeout 0, MapSet 1 0, StdinWrite sample_request,
                    MapDelete 1, ClearTimeout 0, Resolve 0 sample_parsed]\<rparr>"
  by (simp add: handle_line_def trim_def js_whitespace_def js_def sample_response_def
        try_line_def sample_parse_def handle_parsed_def sample_parsed_def entry_resolve_def
        map_delete_def sendRequest_def new_client_def sample_request_def)

theorem malformed_line_is_skipped_witness:
  "malformed sample_parse (js ''oops'') \<and> LF \<notin> set (js ''oops'')
   \<and> handle_line sample_parse (sendRequest new_client sample_request) (js ''oops'')
     = sendRequest new_client sample_request
   \<and> trace (processBuffer sample_parse
        ((sendRequest new_client sample_request)
           \<lparr>buffer := js ''oops'' @ LF # js sample_response @ [LF]\<rparr>))
     = [SetTimeout 0, MapSet 1 0, StdinWrite sample_request,
        MapDelete 1, ClearTimeout 0, Resolve 0 sample_parsed]"
proof -
  have m: "malformed sample_parse (js ''oops'')"
    by (simp add: malformed_def sample_parse_def js_def sample_response_def)
  have n: "LF \<notin> set (js ''oops'')"
    by (simp add: js_def LF_def)
  have s: "LF \<notin> set (js sample_response)"
    by (simp add: js_def LF_def sample_response_def)
  have "take_lines (js sample_response @ [LF]) = ([js sample_response], [])"
    using split_LF_append_LF [of "js sample_response" "[]"]
    by (simp add: take_lines_eq split_LF_no_LF [OF s])
  then have "processBuffer sample_parse
      ((sendRequest new_client sample_request)\<lparr>buffer := js sample_response @ [LF]\<rparr>)
    = handle_line sample_parse (sendRequest new_client sample_request) (js sample_response)
        \<lparr>buffer := []\<rparr>"
    by (simp add: processBuffer_def handle_line_buffer)
  with m n
    malformed_line_is_skipped [OF m n, of "sendRequest new_client sample_request"
      "js sample_response @ [LF]" "[]"]
  show ?thesis
    by (simp add: sample_response_line)
qed

subsection \<open>Chunks that cut a character\<close>

text \<open>
  Claim C8. The buffer keeps the unfinished last line from one chunk to the next
  (\<open>decoded_lines_text\<close>), but each chunk is decoded on its own. The bytes C3 A9 0A
  are the letter U+00E9 and a line feed in UTF-8. They give the line of that one letter
  when they arrive in one chunk, and a line of two replacement characters U+FFFD when
  the chunk boundary falls between the two bytes of the letter: the lines depend on
  where the stream is cut.
\<close>

theorem chunk_boundary_changes_line:
  "decoded_lines [] [[0xC3, 0xA9, 0x0A]] = [[0xE9]]
   \<and> decoded_lines [] [[0xC3], [0xA9, 0x0A]] = [[0xFFFD, 0xFFFD]]
   \<and> concat [[0xC3, 0xA9, 0x0A]] = concat [[0xC3], [0xA9, 0x0A :: byte]]"
  by (simp add: TextDecoder_decode_def utf16_units_def take_lines_def LF_def)

subsection \<open>Settling a request\<close>

lemma settles_append: "settles (as @ bs) = settles as @ settles bs"
  by (induction as rule: settles.induct) auto

lemma sent_append: "sent (es @ fs) = sent es @ sent fs"
  by (induction es rule: sent.induct) auto

lemma client_invI:
  assumes "\<And>i p. pendingRequests st i = Some p \<Longrightarrow> \<exists>r. timers st p = Some r \<and> id' r = i"
    and "\<And>p r. timers st p = Some r \<Longrightarrow> p \<notin> set (settles (trace st))"
    and "\<And>p r. timers st p = Some r \<Longrightarrow> p < promises st"
    and "\<And>p. p \<in> set (settles (trace st)) \<Longrightarrow> p < promises st"
    and "distinct (settles (trace st))"
  shows "client_inv st"
  using assms unfolding client_inv_def by blast

lemma inv_pending:
  "client_inv st \<Longrightarrow> pendingRequests st i = Some p \<Longrightarrow> \<exists>r. timers st p = Some r \<and> id' r = i"
  unfolding client_inv_def by blast

lemma inv_timer_fresh:
  "client_inv st \<Longrightarrow> timers st p = Some r \<Longrightarrow> p \<notin> set (settles (trace st))"
  unfolding client_inv_def by blast

lemma inv_timer_bound: "client_inv st \<Longrightarrow> timers st p = Some r \<Longrightarrow> p < promises st"
  unfolding client_inv_def by blast

lemma inv_settled_bound:
  "client_inv st \<Longrightarrow> p \<in> set (settles (trace st)) \<Longrightarrow> p < promises st"
  unfolding client_inv_def by blast

lemma inv_distinct: "client_inv st \<Longrightarrow> distinct (settles (trace st))"
  unfolding client_inv_def by blast

lemma client_inv_new: "client_inv new_client"
  by (simp add: client_inv_def new_client_def)

lemma client_inv_sendRequest:
  assumes "client_inv st"
  shows "client_inv (sendRequest st r)"
proof (rule client_invI)
  fix i p
  assume "pendingRequests (sendRequest st r) i = Some p"
  then show "\<exists>q. timers (sendRequest st r) p = Some q \<and> id' q = i"
    using inv_pending [OF assms, of i p] inv_timer_bound [OF assms, of "promises st"]
    by (auto simp: sendRequest_def Let_def split: if_splits)
next
  fix p q
  assume "timers (sendRequest st r) p = Some q"
  then show "p \<notin> set (settles (trace (sendRequest st r)))"
    using inv_timer_fresh [OF assms, of p] inv_settled_bound [OF assms, of "promises st"]
    by (auto simp: sendRequest_def Let_def settles_append split: if_splits)
next
  fix p q
  assume "timers (sendRequest st r) p = Some q"
  then show "p < promises (sendRequest st r)"
    using inv_timer_bound [OF assms, of p]
    by (auto simp: sendRequest_def Let_def less_Suc_eq split: if_splits)
next
  fix p
  assume "p \<in> set (settles (trace (sendRequest st r)))"
  then show "p < promises (sendRequest st r)"
    using inv_settled_bound [OF assms, of p]
    by (auto simp: sendRequest_def Let_def settles_append less_Suc_eq)
next
  show "distinct (settles (trace (sendRequest st r)))"
    using inv_distinct [OF assms] by (simp add: sendRequest_def Let_def settles_append)
qed

text \<open>
  Both ways of settling have the same shape: the timer of promise \<open>p\<close> is running, the
  entry under its request's id goes, the timer goes, and \<open>p\<close> is settled.
\<close>

lemma client_inv_settle:
  assumes inv: "client_inv st" and t: "timers st p = Some r"
    and st': "pendingRequests st' = (pendingRequests st)(id' r := None)"
             "timers st' = (timers st)(p := None)"
             "promises st' = promises st"
             "settles (trace st') = settles (trace st) @ [p]"
  shows "client_inv st'"
proof (rule client_invI)
  fix i q
  assume a: "pendingRequests st' i = Some q"
  then have i: "i \<noteq> id' r" and b: "pendingRequests st i = Some q"
    by (auto simp: st' split: if_splits)
  from inv_pending [OF inv b] obtain r' where r': "timers st q = Some r'" "id' r' = i"
    by blast
  with i t have "q \<noteq> p" by auto
  with r' show "\<exists>r. timers st' q = Some r \<and> id' r = i"
    by (simp add: st')
next
  fix q r'
  assume "timers st' q = Some r'"
  then have "q \<noteq> p" "timers st q = Some r'"
    by (auto simp: st' split: if_splits)
  then show "q \<notin> set (settles (trace st'))"
    using inv_timer_fresh [OF inv, of q] by (simp add: st')
next
  fix q r'
  assume "timers st' q = Some r'"
  then have "timers st q = Some r'"
    by (auto simp: st' split: if_splits)
  then show "q < promises st'"
    using inv_timer_bound [OF inv, of q] by (simp add: st')
next
  fix q
  assume "q \<in> set (settles (trace st'))"
  then show "q < promises st'"
    using inv_settled_bound [OF inv, of q] inv_timer_bound [OF inv t] by (auto simp: st')
next
  show "distinct (settles (trace st'))"
    using inv_distinct [OF inv] inv_timer_fresh [OF inv t] by (simp add: st')
qed

lemma client_inv_timer_fires:
  assumes "client_inv st"
  shows "client_inv (timer_fires st p)"
proof (cases "timers st p")
  case None
  with assms show ?thesis by (simp add: timer_fires_def)
next
  case (Some r)
  show ?thesis
    by (rule client_inv_settle [OF assms Some])
       (simp_all add: timer_fires_def Some map_delete_def Let_def settles_append)
qed

lemma client_inv_handle_parsed:
  assumes inv: "client_inv st" and h: "handle_parsed st v = Inr st'"
  shows "client_inv st'"
proof (cases "\<exists>i p. check_envelope v = Inr True \<and> parsed_id v = Some (JNum i)
                      \<and> pendingRequests st i = Some p")
  case False
  then have "st' = st"
    using h by (auto simp: handle_parsed_def split: sum.splits bool.splits option.splits json.splits)
  with inv show ?thesis by simp
next
  case True
  then obtain i p where c: "check_envelope v = Inr True" "parsed_id v = Some (JNum i)"
      "pendingRequests st i = Some p"
    by blast
  from inv_pending [OF inv c(3)] obtain r where r: "timers st p = Some r" "id' r = i"
    by blast
  have st': "st' = entry_resolve p v (map_delete i st)"
    using h c by (simp add: handle_parsed_def)
  show ?thesis
    by (rule client_inv_settle [OF inv r(1)])
       (simp_all add: st' r(2) entry_resolve_def map_delete_def settles_append)
qed

lemma client_inv_handle_line: "client_inv st \<Longrightarrow> client_inv (handle_line parse st line)"
  by (auto simp: handle_line_def try_line_def split: sum.splits option.splits
           dest: client_inv_handle_parsed)

lemma client_inv_fold_handle_line:
  "client_inv st \<Longrightarrow> client_inv (fold (\<lambda>line s. handle_line parse s line) ls st)"
  by (induction ls arbitrary: st) (auto simp: client_inv_handle_line)

lemma client_inv_buffer: "client_inv (st\<lparr>buffer := b\<rparr>) = client_inv st"
  by (simp add: client_inv_def)

lemma client_inv_processBuffer: "client_inv st \<Longrightarrow> client_inv (processBuffer parse st)"
  by (auto simp: processBuffer_def client_inv_buffer client_inv_fold_handle_line split: prod.splits)

lemma client_inv_step: "client_inv st \<Longrightarrow> client_inv (step parse st e)"
  by (cases e) (auto simp: on_chunk_def client_inv_processBuffer client_inv_buffer
                      client_inv_sendRequest client_inv_timer_fires)

lemma client_inv_run: "client_inv st \<Longrightarrow> client_inv (run parse st es)"
  unfolding run_def by (induction es arbitrary: st) (auto simp: client_inv_step)

lemma promises_handle_line: "promises (handle_line parse st line) = promises st"
  by (auto simp: handle_line_def try_line_def handle_parsed_def entry_resolve_def map_delete_def
           split: sum.splits option.splits bool.splits json.splits)

lemma promises_fold_handle_line:
  "promises (fold (\<lambda>line s. handle_line parse s line) ls st) = promises st"
  by (induction ls arbitrary: st) (auto simp: promises_handle_line)

lemma promises_step:
  "promises (step parse st e) = promises st + length (sent [e])"
  by (cases e)
     (auto simp: on_chunk_def processBuffer_def promises_fold_handle_line sendRequest_def Let_def
                 timer_fires_def map_delete_def split: prod.splits option.splits)

lemma promises_run: "promises (run parse st es) = promises st + length (sent es)"
proof (induction es arbitrary: st)
  case Nil
  show ?case by (simp add: run_def)
next
  case (Cons e es)
  have "run parse st (e # es) = run parse (step parse st e) es"
    by (simp add: run_def)
  moreover have "sent (e # es) = sent [e] @ sent es"
    using sent_append [of "[e]" es] by simp
  ultimately show ?case
    by (simp add: Cons.IH promises_step)
qed

lemma distinct_map_nth:
  assumes "distinct (map f xs)" and "distinct ps" and "\<And>p. p \<in> set ps \<Longrightarrow> p < length xs"
  shows "distinct (map (\<lambda>p. f (xs ! p)) ps)"
proof -
  have "inj_on (\<lambda>p. f (xs ! p)) (set ps)"
  proof (rule inj_onI)
    fix p q
    assume "p \<in> set ps" "q \<in> set ps" and eq: "f (xs ! p) = f (xs ! q)"
    then have "p < length (map f xs)" "q < length (map f xs)"
      using assms(3) by auto
    then show "p = q"
      using nth_eq_iff_index_eq [OF assms(1), of p q] eq by simp
  qed
  with assms(2) show ?thesis by (simp add: distinct_map)
qed

text \<open>
  Claim C10, as the code has it. In every run of the client, started from
  \<^verbatim>\<open>new McpClient\<close>, no promise of \<^verbatim>\<open>sendRequest\<close> is settled twice, and every settled
  promise is one a request created; when no request id is sent twice, no request id is
  settled twice. A line that carries a response (\<^verbatim>\<open>jsonrpc\<close> equal to \<^verbatim>\<open>"2.0"\<close> and an
  \<^verbatim>\<open>id\<close>) does one of two things. When its id is a number with an entry in the table,
  the entry is deleted, then the entry's \<^verbatim>\<open>resolve\<close> clears the timer and resolves the
  promise, and nothing else changes. When its id has no entry, or is not a number at
  all, the client stays as it was. A timer that fires deletes the entry under its
  request's id and only then rejects; a timer that was cleared does nothing.
\<close>

theorem request_settled_at_most_once:
  "distinct (settles (trace (run parse new_client es)))
   \<and> list_all (\<lambda>p. p < length (sent es)) (settles (trace (run parse new_client es)))
   \<and> (distinct (map id' (sent es)) \<longrightarrow>
        distinct (map (\<lambda>p. id' (sent es ! p)) (settles (trace (run parse new_client es)))))
   \<and> (trim line \<noteq> [] \<and> parse line = Some v \<and> check_envelope v = Inr True \<longrightarrow>
        handle_line parse st line =
          (case parsed_id v of
             Some (JNum i) \<Rightarrow>
               (case pendingRequests st i of
                  Some p \<Rightarrow>
                    st\<lparr>pendingRequests := (pendingRequests st)(i := None),
                       timers := (timers st)(p := None),
                       trace := trace st @ [MapDelete i, ClearTimeout p, Resolve p v]\<rparr>
                | None \<Rightarrow> st)
           | _ \<Rightarrow> st))
   \<and> timer_fires st q =
        (case timers st q of
           Some r \<Rightarrow>
             st\<lparr>pendingRequests := (pendingRequests st)(id' r := None),
                timers := (timers st)(q := None),
                trace := trace st @ [MapDelete (id' r), Reject q (timeout_message r)]\<rparr>
         | None \<Rightarrow> st)"
proof -
  let ?st = "run parse new_client es"
  have inv: "client_inv ?st"
    by (rule client_inv_run [OF client_inv_new])
  have n: "promises ?st = length (sent es)"
    by (simp add: promises_run new_client_def)
  have 1: "distinct (settles (trace ?st))"
    by (rule inv_distinct [OF inv])
  have b: "p \<in> set (settles (trace ?st)) \<Longrightarrow> p < length (sent es)" for p
    using inv_settled_bound [OF inv, of p] n by simp
  then have 2: "list_all (\<lambda>p. p < length (sent es)) (settles (trace ?st))"
    by (simp add: list_all_iff)
  have 3: "distinct (map (\<lambda>p. id' (sent es ! p)) (settles (trace ?st)))"
    if "distinct (map id' (sent es))"
    using that 1 b by (rule distinct_map_nth)
  have 4: "handle_line parse st line =
          (case parsed_id v of
             Some (JNum i) \<Rightarrow>
               (case pendingRequests st i of
                  Some p \<Rightarrow>
                    st\<lparr>pendingRequests := (pendingRequests st)(i := None),
                       timers := (timers st)(p := None),
                       trace := trace st @ [MapDelete i, ClearTimeout p, Resolve p v]\<rparr>
                | None \<Rightarrow> st)
           | _ \<Rightarrow> st)"
    if "trim line \<noteq> []" "parse line = Some v" "check_envelope v = Inr True"
    using that
    by (simp add: handle_line_def try_line_def handle_parsed_def entry_resolve_def map_delete_def
             split: option.splits json.splits)
  have 5: "timer_fires st q =
        (case timers st q of
           Some r \<Rightarrow>
             st\<lparr>pendingRequests := (pendingRequests st)(id' r := None),
                timers := (timers st)(q := None),
                trace := trace st @ [MapDelete (id' r), Reject q (timeout_message r)]\<rparr>
         | None \<Rightarrow> st)"
    by (simp add: timer_fires_def map_delete_def Let_def split: option.splits)
  from 1 2 3 4 5 show ?thesis by blast
qed

lemma sample_run:
  "trace (run sample_parse new_client sample_events)
     = [SetTimeout 0, MapSet 1 0, StdinWrite sample_request,
        MapDelete 1, ClearTimeout 0, Resolve 0 sample_parsed]"
  by (simp add: run_def sample_events_def sample_request_def sample_response_def new_client_def
      sendRequest_def on_chunk_def ascii_bytes_def TextDecoder_decode_def utf16_units_def
      processBuffer_def take_lines_def LF_def handle_line_def trim_def js_whitespace_def js_def
      try_line_def sample_parse_def sample_parsed_def handle_parsed_def entry_resolve_def
      map_delete_def timer_fires_def)

theorem request_settled_at_most_once_witness:
  "distinct (map id' (sent sample_events))
   \<and> settles (trace (run sample_parse new_client sample_events)) = [0]
   \<and> map (\<lambda>p. id' (sent sample_events ! p))
        (settles (trace (run sample_parse new_client sample_events))) = [1]
   \<and> trim (js sample_response) \<noteq> []
   \<and> sample_parse (js sample_response) = Some sample_parsed
   \<and> check_envelope sample_parsed = Inr True
   \<and> parsed_id sample_parsed = Some (JNum 1)
   \<and> pendingRequests (sendRequest new_client sample_request) 1 = Some 0
   \<and> handle_line sample_parse (sendRequest new_client sample_request) (js sample_response)
      = (sendRequest new_client sample_request)
          \<lparr>pendingRequests := Map.empty, timers := Map.empty,
           trace := trace (sendRequest new_client sample_request)
                    @ [MapDelete 1, ClearTimeout 0, Resolve 0 sample_parsed]\<rparr>
   \<and> check_envelope stray_response = Inr True
   \<and> parsed_id stray_response = Some (JStr (js ''1''))
   \<and> handle_line (\<lambda>line. Some stray_response) (sendRequest new_client sample_request)
        (js sample_response)
      = sendRequest new_client sample_request
   \<and> timers (sendRequest new_client sample_request) 0 = Some sample_request
   \<and> timer_fires (sendRequest new_client sample_request) 0
      = (sendRequest new_client sample_request)
          \<lparr>pendingRequests := Map.empty, timers := Map.empty,
           trace := trace (sendRequest new_client sample_request)
                    @ [MapDelete 1, Reject 0 (timeout_message sample_request)]\<rparr>"
proof -
  let ?st = "sendRequest new_client sample_request"
  have s: "sent sample_events = [sample_request]"
    by (simp add: sample_events_def)
  have i: "id' sample_request = 1"
    by (simp add: sample_request_def)
  have t: "trim (js sample_response) \<noteq> []"
    by (simp add: trim_def js_whitespace_def js_def sample_response_def)
  have p: "sample_parse (js sample_response) = Some sample_parsed"
    by (simp add: sample_parse_def)
  have c: "check_envelope sample_parsed = Inr True" "parsed_id sample_parsed = Some (JNum 1)"
    by (simp_all add: sample_parsed_def js_def)
  have c': "check_envelope stray_response = Inr True"
      "parsed_id stray_response = Some (JStr (js ''1''))"
    by (simp_all add: stray_response_def js_def)
  have e: "pendingRequests ?st = [1 \<mapsto> 0]" "timers ?st = [0 \<mapsto> sample_request]"
    by (simp_all add: sendRequest_def new_client_def i)
  from s i t p c e
    request_settled_at_most_once [of sample_parse sample_events "js sample_response"
      sample_parsed ?st 0]
  have a: "settles (trace (run sample_parse new_client sample_events)) = [0]"
    "handle_line sample_parse ?st (js sample_response)
      = ?st\<lparr>pendingRequests := Map.empty, timers := Map.empty,
            trace := trace ?st @ [MapDelete 1, ClearTimeout 0, Resolve 0 sample_parsed]\<rparr>"
    "timer_fires ?st 0
      = ?st\<lparr>pendingRequests := Map.empty, timers := Map.empty,
            trace := trace ?st @ [MapDelete 1, Reject 0 (timeout_message sample_request)]\<rparr>"
    by (simp_all add: sample_run)
  from t c'
    request_settled_at_most_once [of "\<lambda>line. Some stray_response" "[]" "js sample_response"
      stray_response ?st 0]
  have b: "handle_line (\<lambda>line. Some stray_response) ?st (js sample_response) = ?st"
    by simp
  from s i t p c c' e a b show ?thesis
    by simp
qed

text \<open>
  Claim C10 as it was stated, "every request id is settled at most once", does not
  hold when an id is sent twice. The second \<^verbatim>\<open>sendRequest\<close> replaces the first entry
  under the id; the answer resolves the second promise, and the first promise is
  rejected when its timer runs out: request id 1 is settled twice.
\<close>

theorem request_id_settled_twice:
  "map id' (sent reuse_events) = [1, 1]
   \<and> settles (trace (run sample_parse new_client reuse_events)) = [1, 0]
   \<and> map (\<lambda>p. id' (sent reuse_events ! p))
        (settles (trace (run sample_parse new_client reuse_events))) = [1, 1]
   \<and> \<not> distinct (map (\<lambda>p. id' (sent reuse_events ! p))
                    (settles (trace (run sample_parse new_client reuse_events))))"
proof -
  have "trace (run sample_parse new_client reuse_events)
     = [SetTimeout 0, MapSet 1 0, StdinWrite sample_request,
        SetTimeout 1, MapSet 1 1, StdinWrite sample_request,
        MapDelete 1, ClearTimeout 1, Resolve 1 sample_parsed,
        MapDelete 1, Reject 0 (timeout_message sample_request)]"
    by (simp add: run_def reuse_events_def sample_request_def sample_response_def new_client_def
        sendRequest_def on_chunk_def ascii_bytes_def TextDecoder_decode_def utf16_units_def
        processBuffer_def take_lines_def LF_def handle_line_def trim_def js_whitespace_def
        js_def try_line_def sample_parse_def sample_parsed_def handle_parsed_def
        entry_resolve_def map_delete_def timer_fires_def timeout_message_def)
  moreover have "sent reuse_events = [sample_request, sample_request]"
    by (simp add: reuse_events_def)
  moreover have "id' sample_request = 1"
    by (simp add: sample_request_def)
  ultimately show ?thesis by simp
qed

section \<open>Properties of the renderer\<close>

lemma render_each_first_unknown:
  "find (unknown store) slugs = Some s \<Longrightarrow> render_each store slugs = Inl (UnknownSlug s)"
proof (induction slugs)
  case Nil
  then show ?case by simp
next
  case (Cons a slugs)
  show ?case
  proof (cases "unknown store a")
    case True
    with Cons.prems show ?thesis by (simp add: get_def unknown_def)
  next
    case False
    with Cons.prems have "find (unknown store) slugs = Some s" by simp
    then have "render_each store slugs = Inl (UnknownSlug s)" by (rule Cons.IH)
    with False show ?thesis by (auto simp: get_def unknown_def split: option.splits)
  qed
qed

lemma render_each_all_known:
  "find (unknown store) slugs = None \<Longrightarrow> \<exists>rendered. render_each store slugs = Inr rendered"
proof (induction slugs)
  case Nil
  show ?case by simp
next
  case (Cons a slugs)
  then have a: "\<not> unknown store a" and "find (unknown store) slugs = None"
    by (auto split: if_splits)
  with Cons.IH obtain rendered where "render_each store slugs = Inr rendered" by blast
  with a show ?case by (auto simp: get_def unknown_def split: option.splits)
qed

text \<open>
  Claim C2. When the input holds a slug that is not in the Document Store,
  \<^verbatim>\<open>renderDocs\<close> fails with the error naming the first such slug of the input, and the
  failure is all it returns; when every slug is known it returns a string.
  \<^verbatim>\<open>renderDocs([])\<close> is the empty string, and \<^verbatim>\<open>renderDocs(["nonexistent"])\<close> fails
  naming \<^verbatim>\<open>nonexistent\<close> when the store has no such document.
\<close>

theorem renderDocs_fails_on_first_unknown_slug:
  "(case find (unknown store) slugs of
      Some s \<Rightarrow> renderDocs store slugs = Inl (UnknownSlug s)
    | None \<Rightarrow> (\<exists>out. renderDocs store slugs = Inr out))
   \<and> (find (unknown store) slugs = Some s \<longrightarrow>
        (\<exists>known rest. slugs = known @ s # rest \<and> unknown store s
                      \<and> list_all (\<lambda>k. \<not> unknown store k) known))
   \<and> renderDocs store [] = Inr []
   \<and> (unknown store ''nonexistent'' \<longrightarrow>
        renderDocs store [''nonexistent''] = Inl (UnknownSlug ''nonexistent''))"
proof -
  have 1: "renderDocs store slugs = Inl (UnknownSlug s)"
    if "find (unknown store) slugs = Some s" for s
    using render_each_first_unknown [OF that] by (simp add: renderDocs_def)
  have 2: "\<exists>out. renderDocs store slugs = Inr out" if "find (unknown store) slugs = None"
    using render_each_all_known [OF that] by (auto simp: renderDocs_def)
  have 3: "\<exists>known rest. slugs = known @ s # rest \<and> unknown store s
                      \<and> list_all (\<lambda>k. \<not> unknown store k) known"
    if "find (unknown store) slugs = Some s"
  proof -
    from that obtain i where i: "i < length slugs" "unknown store (slugs ! i)" "s = slugs ! i"
        "\<forall>j<i. \<not> unknown store (slugs ! j)"
      by (auto simp: find_Some_iff)
    have "slugs = take i slugs @ s # drop (Suc i) slugs"
      using i(1,3) by (simp add: id_take_nth_drop)
    moreover have "list_all (\<lambda>k. \<not> unknown store k) (take i slugs)"
      using i(1,4) by (auto simp: list_all_iff in_set_conv_nth)
    ultimately show ?thesis using i(2,3) by blast
  qed
  have 4: "renderDocs store [] = Inr []"
    by (simp add: renderDocs_def)
  have 5: "renderDocs store [''nonexistent''] = Inl (UnknownSlug ''nonexistent'')"
    if "unknown store ''nonexistent''"
    using that by (simp add: renderDocs_def get_def unknown_def)
  show ?thesis
    using 1 2 3 4 5 by (auto split: option.splits)
qed

theorem renderDocs_fails_on_first_unknown_slug_witness:
  "find (unknown sample_store) [''overview'', ''nonexistent'', ''error-handling'', ''missing'']
     = Some ''nonexistent''
   \<and> renderDocs sample_store [''overview'', ''nonexistent'', ''error-handling'', ''missing'']
     = Inl (UnknownSlug ''nonexistent'')
   \<and> unknown sample_store ''nonexistent''
   \<and> renderDocs sample_store [''nonexistent''] = Inl (UnknownSlug ''nonexistent'')
   \<and> renderDocs sample_store [] = Inr []"
proof -
  have u: "unknown sample_store ''nonexistent''" "\<not> unknown sample_store ''overview''"
    by (simp_all add: unknown_def sample_store_def)
  then have f: "find (unknown sample_store)
       [''overview'', ''nonexistent'', ''error-handling'', ''missing''] = Some ''nonexistent''"
    by simp
  from u f
    renderDocs_fails_on_first_unknown_slug [of sample_store
      "[''overview'', ''nonexistent'', ''error-handling'', ''missing'']" "''nonexistent''"]
  show ?thesis by simp
qed

end
